theory Spec2Isabelle
  imports Complex_Main
begin

section \<open>Text\<close>

text \<open>
  A Python \<open>str\<close> is a sequence of Unicode code points, so a text is a list of code
  points (\<open>nat\<close>); \<open>ustr_of\<close> reads an ASCII literal.
\<close>

type_synonym ustr = "nat list"

definition ustr_of :: "string \<Rightarrow> ustr" where
  "ustr_of s = map of_char s"

text \<open>
  The whitespace of \<open>str.strip()\<close>, \<open>str.split()\<close> and of \<open>\s\<close> in a \<open>str\<close> pattern:
  the code points for which \<open>str.isspace\<close> holds.
\<close>

definition is_space :: "nat \<Rightarrow> bool" where
  "is_space c \<longleftrightarrow>
     (9 \<le> c \<and> c \<le> 13) \<or> (28 \<le> c \<and> c \<le> 32) \<or> c = 133 \<or> c = 160 \<or> c = 5760 \<or>
     (8192 \<le> c \<and> c \<le> 8202) \<or> c = 8232 \<or> c = 8233 \<or> c = 8239 \<or> c = 8287 \<or> c = 12288"

definition strip :: "ustr \<Rightarrow> ustr" where
  "strip s = rev (dropWhile is_space (rev (dropWhile is_space s)))"

section \<open>The four patterns of the field cleaner\<close>

text \<open>
  A pattern literal under \<open>re.IGNORECASE\<close>: a lower-case ASCII letter \<open>p\<close> matches
  itself, its upper-case form, and the code points whose simple lower-case form is \<open>p\<close>
  or that the \<open>re\<close> module treats as case-equivalent (long s for \<open>s\<close>, dotted capital
  and dotless i for \<open>i\<close>, the Kelvin sign for \<open>k\<close>); any other literal matches itself.
\<close>

definition ci_eq :: "nat \<Rightarrow> nat \<Rightarrow> bool" where
  "ci_eq p c \<longleftrightarrow>
     (if 97 \<le> p \<and> p \<le> 122
      then c = p \<or> c + 32 = p \<or> (p = 115 \<and> c = 383) \<or>
           (p = 105 \<and> (c = 304 \<or> c = 305)) \<or> (p = 107 \<and> c = 8490)
      else c = p)"

text \<open>\<open>lit_prefix eq lit s\<close>: the text after the literal \<open>lit\<close>, when \<open>s\<close> starts with it.\<close>

fun lit_prefix :: "(nat \<Rightarrow> nat \<Rightarrow> bool) \<Rightarrow> ustr \<Rightarrow> ustr \<Rightarrow> ustr option" where
  "lit_prefix eq [] s = Some s"
| "lit_prefix eq (p # ps) [] = None"
| "lit_prefix eq (p # ps) (c # cs) = (if eq p c then lit_prefix eq ps cs else None)"

text \<open>
  \<open>until_close lo stop r\<close>: the length matched by \<open>[^stop]{lo,}stop\<close> at the head of
  \<open>r\<close>. The greedy class takes every code point before the first \<open>stop\<close>; giving one
  back never helps, since the code point given back is not \<open>stop\<close>.
\<close>

definition until_close :: "nat \<Rightarrow> nat \<Rightarrow> ustr \<Rightarrow> nat option" where
  "until_close lo stop r =
     (let body = takeWhile (\<lambda>c. c \<noteq> stop) r
      in if lo \<le> length body \<and> length body < length r then Some (Suc (length body)) else None)"

text \<open>\<open>_SOUND_RE = \[sound:[^\]]+\]\<close>, ignoring case.\<close>

definition match_sound :: "ustr \<Rightarrow> nat option" where
  "match_sound s =
     (case lit_prefix ci_eq (ustr_of ''[sound:'') s of
        None \<Rightarrow> None
      | Some r \<Rightarrow> map_option (\<lambda>n. 7 + n) (until_close 1 93 r))"

text \<open>\<open>_IMG_TAG_RE = <img[^>]*>\<close>, ignoring case.\<close>

definition match_img :: "ustr \<Rightarrow> nat option" where
  "match_img s =
     (case lit_prefix ci_eq (ustr_of ''<img'') s of
        None \<Rightarrow> None
      | Some r \<Rightarrow> map_option (\<lambda>n. 4 + n) (until_close 0 62 r))"

text \<open>\<open>_HTML_TAG_RE = <[^>]+>\<close>.\<close>

definition match_tag :: "ustr \<Rightarrow> nat option" where
  "match_tag s =
     (case lit_prefix (=) [60] s of
        None \<Rightarrow> None
      | Some r \<Rightarrow> map_option (\<lambda>n. 1 + n) (until_close 1 62 r))"

text \<open>\<open>_WS_RE = \s+\<close>.\<close>

definition match_ws :: "ustr \<Rightarrow> nat option" where
  "match_ws s = (let n = length (takeWhile is_space s) in if 1 \<le> n then Some n else None)"

text \<open>
  \<open>pattern.sub(repl, text)\<close> for a pattern that matches no empty text: scan from the
  left; where the pattern matches, emit \<open>repl\<close> and go on after the match, otherwise keep
  the code point and go on at the next one. \<open>m s\<close> is the length matched at the head of
  \<open>s\<close>.
\<close>

function re_sub :: "(ustr \<Rightarrow> nat option) \<Rightarrow> ustr \<Rightarrow> ustr \<Rightarrow> ustr" where
  "re_sub m repl [] = []"
| "re_sub m repl (c # r) =
     (case m (c # r) of
        Some (Suc n) \<Rightarrow> repl @ re_sub m repl (drop n r)
      | _ \<Rightarrow> c # re_sub m repl r)"
  by pat_completeness auto
termination
  by (relation "measure (\<lambda>(m, repl, s). length s)") auto

section \<open>The field cleaner\<close>

text \<open>
  \<open>html.unescape(s)\<close> returns \<open>s\<close> itself when it holds no ampersand and otherwise
  substitutes the character references; the substitution is the standard library's and
  is the parameter \<open>charref_sub\<close>.
\<close>

definition html_unescape :: "(ustr \<Rightarrow> ustr) \<Rightarrow> ustr \<Rightarrow> ustr" where
  "html_unescape charref_sub s = (if 38 \<in> set s then charref_sub s else s)"

definition clean_field_value :: "(ustr \<Rightarrow> ustr) \<Rightarrow> ustr \<Rightarrow> ustr" where
  "clean_field_value charref_sub text =
     (if text = [] then []
      else let text = re_sub match_sound [] text;
               text = re_sub match_img [] text;
               text = html_unescape charref_sub text;
               text = re_sub match_tag [] text;
               text = strip (re_sub match_ws [32] text)
           in text)"

text \<open>A text holds a complete tag when \<open>_HTML_TAG_RE\<close> matches somewhere in it.\<close>

fun has_tag :: "ustr \<Rightarrow> bool" where
  "has_tag [] = False"
| "has_tag (c # r) = (match_tag (c # r) \<noteq> None \<or> has_tag r)"

text \<open>No two whitespace code points next to each other.\<close>

fun spaced :: "ustr \<Rightarrow> bool" where
  "spaced (a # b # r) = (\<not> (is_space a \<and> is_space b) \<and> spaced (b # r))"
| "spaced _ = True"

section \<open>Exceptions\<close>

datatype error = IndexError | RecursionError | DeckApiError

section \<open>Strings and lists of the standard library\<close>

text \<open>\<open>s.split(sep)\<close> for a one-character separator: \<open>cur\<close> is the piece being read.\<close>

fun split_on_aux :: "nat \<Rightarrow> ustr \<Rightarrow> ustr \<Rightarrow> ustr list" where
  "split_on_aux sep cur [] = [cur]"
| "split_on_aux sep cur (c # r) =
     (if c = sep then cur # split_on_aux sep [] r else split_on_aux sep (cur @ [c]) r)"

definition split_on :: "nat \<Rightarrow> ustr \<Rightarrow> ustr list" where
  "split_on sep s = split_on_aux sep [] s"

text \<open>\<open>s.split()\<close>: the maximal runs of code points that are not whitespace.\<close>

fun split_ws_aux :: "ustr \<Rightarrow> ustr \<Rightarrow> ustr list" where
  "split_ws_aux cur [] = (if cur = [] then [] else [cur])"
| "split_ws_aux cur (c # r) =
     (if is_space c then (if cur = [] then split_ws_aux [] r else cur # split_ws_aux [] r)
      else split_ws_aux (cur @ [c]) r)"

definition split_ws :: "ustr \<Rightarrow> ustr list" where
  "split_ws s = split_ws_aux [] s"

text \<open>\<open>s.replace(",", " ")\<close>.\<close>

definition replace_comma :: "ustr \<Rightarrow> ustr" where
  "replace_comma s = map (\<lambda>c. if c = 44 then 32 else c) s"

text \<open>
  \<open>xs[i]\<close> on a list: an index from \<open>-len(xs)\<close> up to \<open>-1\<close> counts from the end, and an
  index outside \<open>-len(xs) .. len(xs) - 1\<close> raises \<open>IndexError\<close>.
\<close>

definition py_get :: "'a list \<Rightarrow> int \<Rightarrow> error + 'a" where
  "py_get xs i =
     (if 0 \<le> i \<and> i < int (length xs) then Inr (xs ! nat i)
      else if i < 0 \<and> - int (length xs) \<le> i then Inr (xs ! nat (int (length xs) + i))
      else Inl IndexError)"

text \<open>\<open>int(x)\<close> on a float: the fraction is dropped, towards zero.\<close>

definition py_int_of :: "rat \<Rightarrow> int" where
  "py_int_of x = (if 0 \<le> x then \<lfloor>x\<rfloor> else \<lceil>x\<rceil>)"

section \<open>The dialog's parsers\<close>

text \<open>
  \<open>selected_field_indexes\<close>. \<open>py_int\<close> is \<open>int(part)\<close> of the standard library, \<open>None\<close>
  where it raises \<open>ValueError\<close>; the loop catches that exception and goes on. The result
  \<open>None\<close> is Python's \<open>None\<close>: every field is exported.
\<close>

fun field_index_loop :: "(ustr \<Rightarrow> int option) \<Rightarrow> ustr list \<Rightarrow> int list \<Rightarrow> int list" where
  "field_index_loop py_int [] idxs = idxs"
| "field_index_loop py_int (part # parts) idxs =
     (let part = strip part
      in if part = [] then field_index_loop py_int parts idxs
         else (case py_int part of
                 None \<Rightarrow> field_index_loop py_int parts idxs
               | Some i \<Rightarrow>
                   if 0 \<le> i then field_index_loop py_int parts (idxs @ [i])
                   else field_index_loop py_int parts idxs))"

definition selected_field_indexes :: "(ustr \<Rightarrow> int option) \<Rightarrow> ustr \<Rightarrow> int list option" where
  "selected_field_indexes py_int field_text =
     (let text = strip field_text
      in if text = [] then None
         else let idxs = field_index_loop py_int (split_on 44 text) []
              in if idxs = [] then None else Some idxs)"

text \<open>\<open>selected_tags\<close>. \<open>lower\<close> is \<open>str.lower\<close> of the standard library.\<close>

fun tag_loop :: "(ustr \<Rightarrow> ustr) \<Rightarrow> ustr list \<Rightarrow> ustr list \<Rightarrow> ustr list" where
  "tag_loop lower [] tags = tags"
| "tag_loop lower (part # parts) tags =
     (let t = lower (strip part)
      in if t \<noteq> [] then tag_loop lower parts (tags @ [t]) else tag_loop lower parts tags)"

definition selected_tags :: "(ustr \<Rightarrow> ustr) \<Rightarrow> ustr \<Rightarrow> ustr list option" where
  "selected_tags lower tags_text =
     (let text = strip tags_text
      in if text = [] then None
         else let tags = tag_loop lower (split_ws (replace_comma text)) []
              in if tags = [] then None else Some tags)"

section \<open>The collection\<close>

record revlog_row =
  r_id :: int
  r_cid :: int
  r_ease :: int
  r_ivl :: int
  r_lastIvl :: int
  r_factor :: int
  r_time :: int
  r_type :: int

record card_row =
  c_id :: int
  c_nid :: int
  c_did :: int

record note_row =
  n_id :: int
  n_flds :: ustr
  n_tags :: ustr

record database =
  revlog_tbl :: "revlog_row list"
  cards_tbl :: "card_row list"
  notes_tbl :: "note_row list"

text \<open>
  The deck manager of the collection. \<open>bulk_ids\<close> is \<open>decks.deck_and_child_ids\<close> where
  the manager has it (\<open>None\<close> where \<open>hasattr\<close> is false), and may raise; \<open>children\<close> is
  \<open>decks.children\<close>, pairs of a name and a deck id; \<open>all_names_and_ids\<close> lists the
  decks as pairs of an id and a name.
\<close>

record collection =
  db :: database
  bulk_ids :: "(int \<Rightarrow> error + int list) option"
  children :: "int \<Rightarrow> (ustr \<times> int) list"
  all_names_and_ids :: "(int \<times> ustr) list"

text \<open>
  What the interpreter and the standard library give the export: the substitution of
  character references of \<open>html.unescape\<close>, \<open>time.strftime\<close> of \<open>time.gmtime\<close> of a
  timestamp in milliseconds, \<open>json.dumps\<close>, and the depth of recursion the interpreter
  allows.
\<close>

datatype jvalue = JInt int | JStr ustr | JList "ustr list"

type_synonym jobj = "(string \<times> jvalue) list"

record runtime =
  charref_sub :: "ustr \<Rightarrow> ustr"
  ts_iso_of :: "int \<Rightarrow> ustr"
  json_dumps :: "jobj \<Rightarrow> ustr"
  recursion_limit :: nat

section \<open>Deck utilities\<close>

text \<open>
  \<open>for_each xs acc body\<close>: a \<open>for\<close> loop over \<open>xs\<close> whose body updates \<open>acc\<close> or raises.
\<close>

fun for_each :: "'a list \<Rightarrow> 'b \<Rightarrow> ('a \<Rightarrow> 'b \<Rightarrow> error + 'b) \<Rightarrow> error + 'b" where
  "for_each [] acc body = Inr acc"
| "for_each (x # xs) acc body =
     (case body x acc of Inl e \<Rightarrow> Inl e | Inr acc' \<Rightarrow> for_each xs acc' body)"

text \<open>
  The nested \<open>collect\<close>, with the depth of recursion left as its first argument: at depth
  zero the interpreter raises \<open>RecursionError\<close>.
\<close>

primrec collect :: "nat \<Rightarrow> collection \<Rightarrow> int \<Rightarrow> int list \<Rightarrow> error + int list" where
  "collect 0 col did acc = Inl RecursionError"
| "collect (Suc depth) col did acc =
     for_each (children col did) acc
       (\<lambda>(name, child_id) acc. collect depth col child_id (acc @ [child_id]))"

definition deck_and_child_ids :: "nat \<Rightarrow> collection \<Rightarrow> int \<Rightarrow> error + int list" where
  "deck_and_child_ids depth col deck_id =
     (let decks = [deck_id];
          fallback = collect depth col deck_id decks
      in case bulk_ids col of
           None \<Rightarrow> fallback
         | Some api \<Rightarrow> (case api deck_id of Inr ids \<Rightarrow> Inr ids | Inl e \<Rightarrow> fallback))"

section \<open>The query\<close>

text \<open>A row of the \<open>SELECT\<close>, its twelve columns in order.\<close>

record row =
  ts_ms :: int
  cid :: int
  nid :: int
  did :: int
  ease :: int
  ivl :: int
  last_ivl :: int
  factor :: int
  review_time_ms :: int
  rev_type :: int
  flds :: ustr
  note_tags :: ustr

text \<open>\<open>FROM revlog r JOIN cards c ON c.id = r.cid JOIN notes n ON n.id = c.nid\<close>.\<close>

definition joined :: "database \<Rightarrow> row list" where
  "joined d =
     concat (map (\<lambda>r.
       concat (map (\<lambda>c.
         if c_id c = r_cid r
         then concat (map (\<lambda>n.
                if n_id n = c_nid c
                then [\<lparr>ts_ms = r_id r, cid = r_cid r, nid = c_nid c, did = c_did c,
                       ease = r_ease r, ivl = r_ivl r, last_ivl = r_lastIvl r,
                       factor = r_factor r, review_time_ms = r_time r, rev_type = r_type r,
                       flds = n_flds n, note_tags = n_tags n\<rparr>]
                else []) (notes_tbl d))
         else []) (cards_tbl d))) (revlog_tbl d))"

text \<open>
  SQLite's \<open>LIKE\<close> with no \<open>ESCAPE\<close>: \<open>%\<close> in the pattern stands for any text, \<open>_\<close> for
  any one character, and any other character for itself, upper and lower case of the
  ASCII letters taken as equal.
\<close>

definition sqlite_lower :: "nat \<Rightarrow> nat" where
  "sqlite_lower c = (if 65 \<le> c \<and> c \<le> 90 then c + 32 else c)"

fun sql_like :: "ustr \<Rightarrow> ustr \<Rightarrow> bool" where
  "sql_like [] [] = True"
| "sql_like [] (c # cs) = False"
| "sql_like (p # ps) [] = (p = 37 \<and> sql_like ps [])"
| "sql_like (p # ps) (c # cs) =
     (if p = 37 then sql_like ps (c # cs) \<or> sql_like (p # ps) cs
      else (p = 95 \<or> sqlite_lower p = sqlite_lower c) \<and> sql_like ps cs)"

text \<open>The clauses of the \<open>WHERE\<close>, each with its parameters.\<close>

datatype clause =
    DidIn "int list"
  | IdGe int
  | TagsLikeAny "ustr list"
  | IvlGe int

fun eval_clause :: "clause \<Rightarrow> row \<Rightarrow> bool" where
  "eval_clause (DidIn dids) rw = (did rw \<in> set dids)"
| "eval_clause (IdGe cutoff) rw = (cutoff \<le> ts_ms rw)"
| "eval_clause (TagsLikeAny patterns) rw = list_ex (\<lambda>p. sql_like p (note_tags rw)) patterns"
| "eval_clause (IvlGe m) rw = (m \<le> ivl rw)"

text \<open>\<open>cutoff_ms = int((now_sec - days * 86400) * 1000)\<close>; \<open>now_sec\<close> is \<open>time.time()\<close>.\<close>

definition cutoff_ms :: "rat \<Rightarrow> int \<Rightarrow> int" where
  "cutoff_ms now_sec days = py_int_of ((now_sec - of_int (days * 86400)) * 1000)"

text \<open>The parameter of a tag clause: \<open>f"% {tag} %"\<close>.\<close>

definition tag_pattern :: "ustr \<Rightarrow> ustr" where
  "tag_pattern tag = [37, 32] @ tag @ [32, 37]"

text \<open>The arguments of \<open>export_llm_stats\<close> other than the collection.\<close>

record export_options =
  deck_id :: int
  days :: "int option"
  out_path :: ustr
  field_indexes :: "int list option"
  tags_filter :: "ustr list option"
  min_interval :: "int option"
  include_ids :: bool
  include_deck_name :: bool
  include_ts_ms :: bool
  compact_schema :: bool

definition where_clauses :: "rat \<Rightarrow> export_options \<Rightarrow> int list \<Rightarrow> clause list" where
  "where_clauses now_sec opts dids =
     [DidIn dids]
     @ (case days opts of None \<Rightarrow> [] | Some d \<Rightarrow> [IdGe (cutoff_ms now_sec d)])
     @ (case tags_filter opts of
          None \<Rightarrow> []
        | Some tags \<Rightarrow> if tags = [] then [] else [TagsLikeAny (map tag_pattern tags)])
     @ (case min_interval opts of None \<Rightarrow> [] | Some m \<Rightarrow> [IvlGe m])"

text \<open>\<open>WHERE\<close> the clauses joined by \<open>AND\<close>, \<open>ORDER BY r.id\<close>.\<close>

definition execute_query :: "database \<Rightarrow> clause list \<Rightarrow> row list" where
  "execute_query d clauses =
     sort_key ts_ms (filter (\<lambda>rw. list_all (\<lambda>cl. eval_clause cl rw) clauses) (joined d))"

section \<open>Projecting a row\<close>

text \<open>\<open>raw_fields = flds.split("\x1f") if flds else []\<close>.\<close>

definition raw_fields_of :: "ustr \<Rightarrow> ustr list" where
  "raw_fields_of f = (if f = [] then [] else split_on 31 f)"

text \<open>The loop over the requested indices; \<open>raw_fields[idx]\<close> is a list access.\<close>

fun select_loop :: "(ustr \<Rightarrow> ustr) \<Rightarrow> ustr list \<Rightarrow> int list \<Rightarrow> ustr list \<Rightarrow> error + ustr list" where
  "select_loop cr raw_fields [] selected = Inr selected"
| "select_loop cr raw_fields (idx # idxs) selected =
     (if 0 \<le> idx \<and> idx < int (length raw_fields)
      then (case py_get raw_fields idx of
              Inl e \<Rightarrow> Inl e
            | Inr v \<Rightarrow> select_loop cr raw_fields idxs (selected @ [clean_field_value cr v]))
      else select_loop cr raw_fields idxs selected)"

definition select_fields :: "(ustr \<Rightarrow> ustr) \<Rightarrow> int list option \<Rightarrow> ustr list \<Rightarrow> error + ustr list" where
  "select_fields cr idxs raw_fields =
     (case idxs of
        Some is \<Rightarrow> select_loop cr raw_fields is []
      | None \<Rightarrow> Inr (map (clean_field_value cr) raw_fields))"

definition unknown_name :: ustr where
  "unknown_name = ustr_of ''<unknown>''"

text \<open>\<open>deck_names = {d.id: d.name for d in ...}\<close>: a later pair replaces an earlier one.\<close>

definition deck_names_of :: "(int \<times> ustr) list \<Rightarrow> (int \<rightharpoonup> ustr)" where
  "deck_names_of pairs = map_of (rev pairs)"

text \<open>\<open>deck_names.get(k, "<unknown>")\<close>.\<close>

definition get_name :: "(int \<rightharpoonup> ustr) \<Rightarrow> int \<Rightarrow> ustr" where
  "get_name deck_names k = (case deck_names k of Some name \<Rightarrow> name | None \<Rightarrow> unknown_name)"

text \<open>The object of one row, its keys in the order they are set.\<close>

definition build_obj :: "export_options \<Rightarrow> (int \<rightharpoonup> ustr) \<Rightarrow> ustr \<Rightarrow> row \<Rightarrow> ustr list \<Rightarrow> jobj" where
  "build_obj opts deck_names ts_iso rw field_values =
     (if compact_schema opts
      then [(''t'', JStr ts_iso), (''rt'', JInt (rev_type rw)), (''e'', JInt (ease rw)),
            (''i'', JInt (ivl rw)), (''li'', JInt (last_ivl rw)), (''f'', JInt (factor rw)),
            (''ms'', JInt (review_time_ms rw)), (''flds'', JList field_values)]
      else [(''ts_iso'', JStr ts_iso), (''ease'', JInt (ease rw)), (''interval'', JInt (ivl rw)),
            (''last_interval'', JInt (last_ivl rw)), (''factor'', JInt (factor rw)),
            (''review_time_ms'', JInt (review_time_ms rw)), (''review_type'', JInt (rev_type rw)),
            (''fields'', JList field_values)]
           @ (if include_ts_ms opts then [(''ts_ms'', JInt (ts_ms rw))] else [])
           @ (if include_ids opts
              then [(''card_id'', JInt (cid rw)), (''note_id'', JInt (nid rw)),
                    (''deck_id'', JInt (did rw))]
              else [])
           @ (if include_deck_name opts
              then [(''deck_name'', JStr (get_name deck_names (did rw)))] else []))"

definition project_row :: "runtime \<Rightarrow> export_options \<Rightarrow> (int \<rightharpoonup> ustr) \<Rightarrow> row \<Rightarrow> error + jobj" where
  "project_row rt opts deck_names rw =
     (case select_fields (charref_sub rt) (field_indexes opts) (raw_fields_of (flds rw)) of
        Inl e \<Rightarrow> Inl e
      | Inr field_values \<Rightarrow> Inr (build_obj opts deck_names (ts_iso_of rt (ts_ms rw)) rw field_values))"

section \<open>The export\<close>

record ExportResult =
  count :: int
  first_ts_ms :: "int option"
  last_ts_ms :: "int option"
  deck_name :: ustr

text \<open>The variables of the loop, and the text written to the file so far.\<close>

record loop_state =
  l_count :: int
  l_first :: "int option"
  l_last :: "int option"
  l_written :: ustr

definition loop_init :: loop_state where
  "loop_init = \<lparr>l_count = 0, l_first = None, l_last = None, l_written = []\<rparr>"

text \<open>
  The loop over the rows. When a row raises, nothing of it has been written: the text
  of the rows before it is what the file holds.
\<close>

fun export_loop ::
  "runtime \<Rightarrow> export_options \<Rightarrow> (int \<rightharpoonup> ustr) \<Rightarrow> row list \<Rightarrow> loop_state \<Rightarrow> error option \<times> loop_state" where
  "export_loop rt opts deck_names [] st = (None, st)"
| "export_loop rt opts deck_names (rw # rows) st =
     (let st1 = st\<lparr>l_first := (if l_first st = None then Some (ts_ms rw) else l_first st),
                    l_last := Some (ts_ms rw)\<rparr>
      in case project_row rt opts deck_names rw of
           Inl e \<Rightarrow> (Some e, st1)
         | Inr obj \<Rightarrow>
             export_loop rt opts deck_names rows
               (st1\<lparr>l_written := l_written st1 @ json_dumps rt obj @ [10],
                    l_count := l_count st1 + 1\<rparr>))"

text \<open>
  The file system: the text of the file at each path. \<open>open(out_path, "w")\<close> empties the
  file, so what it holds afterwards is what this run wrote.
\<close>

type_synonym files = "ustr \<rightharpoonup> ustr"

definition export_llm_stats ::
  "runtime \<Rightarrow> collection \<Rightarrow> rat \<Rightarrow> export_options \<Rightarrow> files \<Rightarrow> (error + ExportResult) \<times> files" where
  "export_llm_stats rt col now_sec opts fs =
     (case deck_and_child_ids (recursion_limit rt) col (deck_id opts) of
        Inl e \<Rightarrow> (Inl e, fs)
      | Inr dids \<Rightarrow>
          let rows = execute_query (db col) (where_clauses now_sec opts dids);
              deck_names = deck_names_of (all_names_and_ids col);
              root_deck_name = get_name deck_names (deck_id opts);
              (raised, st) = export_loop rt opts deck_names rows loop_init;
              fs' = fs(out_path opts \<mapsto> l_written st)
          in case raised of
               Some e \<Rightarrow> (Inl e, fs')
             | None \<Rightarrow>
                 (Inr \<lparr>count = l_count st, first_ts_ms = l_first st, last_ts_ms = l_last st,
                       deck_name = root_deck_name\<rparr>, fs'))"

section \<open>Closed forms of the loops\<close>

text \<open>The field values, the object and the line of a row, as the loops compute them.\<close>

definition the_fields :: "runtime \<Rightarrow> export_options \<Rightarrow> row \<Rightarrow> ustr list" where
  "the_fields rt opts rw =
     (case field_indexes opts of
        Some idxs \<Rightarrow> map (\<lambda>i. clean_field_value (charref_sub rt) (raw_fields_of (flds rw) ! nat i))
                       (filter (\<lambda>i. 0 \<le> i \<and> i < int (length (raw_fields_of (flds rw)))) idxs)
      | None \<Rightarrow> map (clean_field_value (charref_sub rt)) (raw_fields_of (flds rw)))"

definition the_obj :: "runtime \<Rightarrow> export_options \<Rightarrow> (int \<rightharpoonup> ustr) \<Rightarrow> row \<Rightarrow> jobj" where
  "the_obj rt opts dn rw = build_obj opts dn (ts_iso_of rt (ts_ms rw)) rw (the_fields rt opts rw)"

definition the_line :: "runtime \<Rightarrow> export_options \<Rightarrow> (int \<rightharpoonup> ustr) \<Rightarrow> row \<Rightarrow> ustr" where
  "the_line rt opts dn rw = json_dumps rt (the_obj rt opts dn rw) @ [10]"

section \<open>A collection and a runtime for the examples\<close>

text \<open>
  Three reviews at 1000, 2000 and 3000 ms, of three notes with one field each, in the
  deck 1 and its child deck 2; the newer deck manager answers the bulk query.
\<close>

definition sample_db :: database where
  "sample_db =
     \<lparr>revlog_tbl =
        [\<lparr>r_id = 2000, r_cid = 12, r_ease = 3, r_ivl = 4, r_lastIvl = 1, r_factor = 2500,
          r_time = 5200, r_type = 1\<rparr>,
         \<lparr>r_id = 1000, r_cid = 11, r_ease = 3, r_ivl = 1, r_lastIvl = 0, r_factor = 2500,
          r_time = 4100, r_type = 0\<rparr>,
         \<lparr>r_id = 3000, r_cid = 13, r_ease = 2, r_ivl = 9, r_lastIvl = 4, r_factor = 2350,
          r_time = 7300, r_type = 1\<rparr>],
      cards_tbl =
        [\<lparr>c_id = 11, c_nid = 1, c_did = 1\<rparr>, \<lparr>c_id = 12, c_nid = 2, c_did = 1\<rparr>,
         \<lparr>c_id = 13, c_nid = 3, c_did = 2\<rparr>],
      notes_tbl =
        [\<lparr>n_id = 1, n_flds = ustr_of ''<b>Hi</b>'', n_tags = ustr_of '' axb ''\<rparr>,
         \<lparr>n_id = 2, n_flds = ustr_of ''Bye [sound:x.mp3]'', n_tags = ustr_of '' verb ''\<rparr>,
         \<lparr>n_id = 3, n_flds = ustr_of ''  spaced  out  '', n_tags = []\<rparr>]\<rparr>"

definition sample_col :: collection where
  "sample_col =
     \<lparr>db = sample_db,
      bulk_ids = Some (\<lambda>d. Inr (if d = 1 then [1, 2] else [d])),
      children = (\<lambda>d. if d = 1 then [(ustr_of ''Default::Sub'', 2)] else []),
      all_names_and_ids = [(1, ustr_of ''Default''), (2, ustr_of ''Default::Sub'')]\<rparr>"


text \<open>
  A runtime for the examples. Their texts hold no ampersand, so the substitution of
  character references is never reached; the timestamp text and the serialiser are
  short stand-ins, enough to tell the lines of different rows apart.
\<close>

definition sample_rt :: runtime where
  "sample_rt =
     \<lparr>charref_sub = (\<lambda>s. s),
      ts_iso_of = (\<lambda>t. ustr_of ''T''),
      json_dumps = (\<lambda>obj. concat (map (\<lambda>(k, v). case v of JList xs \<Rightarrow> concat xs | _ \<Rightarrow> []) obj)),
      recursion_limit = 1000\<rparr>"

definition sample_opts :: export_options where
  "sample_opts =
     \<lparr>deck_id = 1, days = None, out_path = ustr_of ''out.jsonl'', field_indexes = None,
      tags_filter = None, min_interval = None, include_ids = False,
      include_deck_name = False, include_ts_ms = False, compact_schema = False\<rparr>"

text \<open>The row of the review at 1000 ms.\<close>

definition sample_row :: row where
  "sample_row =
     \<lparr>ts_ms = 1000, cid = 11, nid = 1, did = 1, ease = 3, ivl = 1, last_ivl = 0,
      factor = 2500, review_time_ms = 4100, rev_type = 0, flds = ustr_of ''<b>Hi</b>'',
      note_tags = ustr_of '' axb ''\<rparr>"

text \<open>\<open>int(part)\<close> on plain ASCII decimals, for the examples.\<close>

fun dec_value :: "ustr \<Rightarrow> int \<Rightarrow> int option" where
  "dec_value [] acc = Some acc"
| "dec_value (c # cs) acc =
     (if 48 \<le> c \<and> c \<le> 57 then dec_value cs (acc * 10 + int (c - 48)) else None)"

definition sample_int :: "ustr \<Rightarrow> int option" where
  "sample_int s =
     (case s of
        [] \<Rightarrow> None
      | c # cs \<Rightarrow>
          if c = 45 then (if cs = [] then None else map_option uminus (dec_value cs 0))
          else dec_value (c # cs) 0)"


text \<open>
  The tag filter in the words of the specification: some requested tag is, letter case
  aside, a complete tag of the note, the tags of a note being the pieces of its tag text
  between spaces.
\<close>

definition tag_filter_spec :: "ustr list \<Rightarrow> ustr \<Rightarrow> bool" where
  "tag_filter_spec tags note_tag_text =
     list_ex (\<lambda>tag. list_ex (\<lambda>token. token \<noteq> [] \<and> map sqlite_lower token = map sqlite_lower tag)
                       (split_on 32 note_tag_text)) tags"

section \<open>Facts about the patterns\<close>

lemma takeWhile_short: "length (takeWhile P xs) < length xs \<longleftrightarrow> (\<exists>x\<in>set xs. \<not> P x)"
  by (induction xs) auto

lemma match_tag_Cons:
  "(\<exists>k. match_tag (c # r) = Some k) \<longleftrightarrow> c = 60 \<and> r \<noteq> [] \<and> hd r \<noteq> 62 \<and> 62 \<in> set r"
  by (cases r) (auto simp: match_tag_def until_close_def Let_def takeWhile_short)

lemma match_tag_Suc: "match_tag s = Some k \<Longrightarrow> \<exists>n. k = Suc n"
  by (cases s) (auto simp: match_tag_def until_close_def Let_def split: if_splits)

lemma has_tag_append: "has_tag t \<Longrightarrow> has_tag (a @ t)"
  by (induction a) auto

lemma has_tag_drop: "has_tag (drop n s) \<Longrightarrow> has_tag s"
  using has_tag_append [of "drop n s" "take n s"] by simp

lemma has_tag_iff:
  "has_tag s \<longleftrightarrow> (\<exists>a b c. s = a @ 60 # b @ 62 # c \<and> b \<noteq> [] \<and> 62 \<notin> set b)"
proof
  show "has_tag s \<Longrightarrow> \<exists>a b c. s = a @ 60 # b @ 62 # c \<and> b \<noteq> [] \<and> 62 \<notin> set b"
  proof (induction s)
    case Nil
    then show ?case by simp
  next
    case (Cons x xs)
    show ?case
    proof (cases "\<exists>k. match_tag (x # xs) = Some k")
      case True
      then have x: "x = 60" and ne: "xs \<noteq> []" and hd: "hd xs \<noteq> 62" and mem: "62 \<in> set xs"
        unfolding match_tag_Cons by simp_all
      from mem obtain b c where split: "xs = b @ 62 # c" "62 \<notin> set b"
        by (auto dest: split_list_first)
      with ne hd have "b \<noteq> []" by (cases b) auto
      with x split have "x # xs = [] @ 60 # b @ 62 # c \<and> b \<noteq> [] \<and> 62 \<notin> set b" by simp
      then show ?thesis by blast
    next
      case False
      with Cons.prems have "has_tag xs" by simp
      then obtain a b c where "xs = a @ 60 # b @ 62 # c" "b \<noteq> []" "62 \<notin> set b"
        using Cons.IH by blast
      then have "x # xs = (x # a) @ 60 # b @ 62 # c \<and> b \<noteq> [] \<and> 62 \<notin> set b" by simp
      then show ?thesis by blast
    qed
  qed
next
  assume "\<exists>a b c. s = a @ 60 # b @ 62 # c \<and> b \<noteq> [] \<and> 62 \<notin> set b"
  then obtain a b c where s: "s = a @ 60 # b @ 62 # c" and b: "b \<noteq> []" "62 \<notin> set b" by blast
  from b have "\<exists>k. match_tag (60 # b @ 62 # c) = Some k"
    unfolding match_tag_Cons by (cases b) auto
  then have "has_tag (60 # b @ 62 # c)" by simp
  then show "has_tag s" unfolding s by (rule has_tag_append)
qed

lemma re_sub_del_subset: "set (re_sub m [] s) \<subseteq> set s"
proof (induction m "[]::ustr" s rule: re_sub.induct)
  case (1 m)
  then show ?case by simp
next
  case (2 m c r)
  show ?case
  proof (cases "m (c # r)")
    case None
    with 2 show ?thesis by auto
  next
    case (Some k)
    show ?thesis
    proof (cases k)
      case 0
      with Some 2 show ?thesis by auto
    next
      case (Suc n)
      with Some 2 have "set (re_sub m [] (drop n r)) \<subseteq> set (drop n r)" by simp
      also have "\<dots> \<subseteq> set r" by (rule set_drop_subset)
      finally show ?thesis using Some Suc by auto
    qed
  qed
qed

lemma tag_sub_Cons:
  "re_sub match_tag [] (c # r) =
     (case match_tag (c # r) of
        Some (Suc n) \<Rightarrow> re_sub match_tag [] (drop n r)
      | _ \<Rightarrow> c # re_sub match_tag [] r)"
  by (simp split: option.splits nat.splits)

lemma tag_sub_no_tag: "\<not> has_tag (re_sub match_tag [] s)"
proof (induction s rule: length_induct)
  case (1 s)
  show ?case
  proof (cases s)
    case Nil
    then show ?thesis by simp
  next
    case (Cons c r)
    show ?thesis
    proof (cases "match_tag (c # r)")
      case None
      let ?out = "re_sub match_tag [] r"
      from None have out: "re_sub match_tag [] s = c # ?out" by (simp add: Cons)
      have ih: "\<not> has_tag ?out" using 1 Cons by simp
      have "match_tag (c # ?out) = None"
      proof (rule ccontr)
        assume "match_tag (c # ?out) \<noteq> None"
        then have "\<exists>k. match_tag (c # ?out) = Some k" by simp
        then have c: "c = 60" and ne: "?out \<noteq> []" and hd: "hd ?out \<noteq> 62" and mem: "62 \<in> set ?out"
          unfolding match_tag_Cons by simp_all
        from mem have mem': "62 \<in> set r" using re_sub_del_subset [of match_tag r] by blast
        then obtain x xs where r: "r = x # xs" by (cases r) auto
        from None c mem' r have "x = 62" using match_tag_Cons [of c r] by auto
        then have "match_tag r = None" using r by (simp add: match_tag_def)
        then have "?out = 62 # re_sub match_tag [] xs" using r \<open>x = 62\<close> by simp
        with hd show False by simp
      qed
      with ih out show ?thesis by simp
    next
      case (Some k)
      then obtain n where k: "k = Suc n" using match_tag_Suc by blast
      with Some have "re_sub match_tag [] s = re_sub match_tag [] (drop n r)" by (simp add: Cons)
      moreover have "\<not> has_tag (re_sub match_tag [] (drop n r))" using 1 Cons by simp
      ultimately show ?thesis by simp
    qed
  qed
qed

lemma match_ws_Cons:
  "match_ws (c # r) = (if is_space c then Some (Suc (length (takeWhile is_space r))) else None)"
  by (simp add: match_ws_def)

lemma ws_sub_Cons:
  "re_sub match_ws [32] (c # r) =
     (if is_space c then 32 # re_sub match_ws [32] (dropWhile is_space r)
      else c # re_sub match_ws [32] r)"
  by (simp add: match_ws_Cons dropWhile_eq_drop)

lemma ws_sub_space: "c \<in> set (re_sub match_ws [32] s) \<Longrightarrow> is_space c \<Longrightarrow> c = 32"
proof (induction s rule: length_induct)
  case (1 s)
  show ?case
  proof (cases s)
    case Nil
    with 1 show ?thesis by simp
  next
    case (Cons x r)
    have len: "length (dropWhile is_space r) < length s"
      using length_dropWhile_le [of is_space r] Cons by simp
    show ?thesis
    proof (cases "is_space x")
      case True
      with 1 Cons len show ?thesis by (auto simp: ws_sub_Cons simp del: re_sub.simps(2))
    next
      case False
      with 1 Cons show ?thesis by (auto simp: ws_sub_Cons simp del: re_sub.simps(2))
    qed
  qed
qed

lemma ws_sub_set: "\<not> is_space c \<Longrightarrow> c \<in> set (re_sub match_ws [32] s) \<longleftrightarrow> c \<in> set s"
proof (induction s rule: length_induct)
  case (1 s)
  show ?case
  proof (cases s)
    case Nil
    then show ?thesis by simp
  next
    case (Cons x r)
    have len: "length (dropWhile is_space r) < length s"
      using length_dropWhile_le [of is_space r] Cons by simp
    have sp32: "is_space 32" by (simp add: is_space_def)
    show ?thesis
    proof (cases "is_space x")
      case True
      have "c \<in> set (dropWhile is_space r) \<longleftrightarrow> c \<in> set r"
        using 1(2) by (induction r) auto
      with True 1 Cons len sp32 show ?thesis by (auto simp: ws_sub_Cons simp del: re_sub.simps(2))
    next
      case False
      with 1 Cons show ?thesis by (auto simp: ws_sub_Cons simp del: re_sub.simps(2))
    qed
  qed
qed

lemma spaced_Cons: "spaced (a # t) \<longleftrightarrow> (t = [] \<or> \<not> (is_space a \<and> is_space (hd t))) \<and> spaced t"
  by (cases t) auto

lemma ws_sub_Nil: "re_sub match_ws [32] s = [] \<longleftrightarrow> s = []"
  by (cases s) (auto simp: ws_sub_Cons simp del: re_sub.simps(2))

lemma ws_sub_hd: "s \<noteq> [] \<Longrightarrow> \<not> is_space (hd s) \<Longrightarrow> hd (re_sub match_ws [32] s) = hd s"
  by (cases s) (auto simp: ws_sub_Cons simp del: re_sub.simps(2))

lemma ws_sub_spaced: "spaced (re_sub match_ws [32] s)"
proof (induction s rule: length_induct)
  case (1 s)
  show ?case
  proof (cases s)
    case Nil
    then show ?thesis by simp
  next
    case (Cons x r)
    let ?d = "dropWhile is_space r"
    have len: "length ?d < length s"
      using length_dropWhile_le [of is_space r] Cons by simp
    show ?thesis
    proof (cases "is_space x")
      case True
      have ih: "spaced (re_sub match_ws [32] ?d)" using 1 len by simp
      have "?d \<noteq> [] \<Longrightarrow> \<not> is_space (hd ?d)" by (rule hd_dropWhile)
      then have "?d \<noteq> [] \<Longrightarrow> \<not> is_space (hd (re_sub match_ws [32] ?d))"
        by (simp add: ws_sub_hd)
      with ih True Cons show ?thesis
        by (auto simp: ws_sub_Cons spaced_Cons ws_sub_Nil simp del: re_sub.simps(2))
    next
      case False
      have "spaced (re_sub match_ws [32] r)" using 1 Cons by simp
      with False Cons show ?thesis by (simp add: ws_sub_Cons spaced_Cons del: re_sub.simps(2))
    qed
  qed
qed

lemma ws_sub_has_tag: "has_tag (re_sub match_ws [32] s) \<Longrightarrow> has_tag s"
proof (induction s rule: length_induct)
  case (1 s)
  show ?case
  proof (cases s)
    case Nil
    with 1 show ?thesis by simp
  next
    case (Cons x r)
    let ?d = "dropWhile is_space r"
    have len: "length ?d < length s"
      using length_dropWhile_le [of is_space r] Cons by simp
    have ns: "\<not> is_space 60" "\<not> is_space 62" by (simp_all add: is_space_def)
    show ?thesis
    proof (cases "is_space x")
      case True
      then have "x \<noteq> 60" using ns by auto
      have out: "re_sub match_ws [32] s = 32 # re_sub match_ws [32] ?d"
        using True Cons by (simp add: ws_sub_Cons del: re_sub.simps(2))
      have "\<not> (\<exists>k. match_tag (32 # re_sub match_ws [32] ?d) = Some k)"
        unfolding match_tag_Cons by simp
      with 1(2) out have "has_tag (re_sub match_ws [32] ?d)" by simp
      then have "has_tag ?d" using 1(1) len by blast
      then have "has_tag r" using has_tag_drop [of "length (takeWhile is_space r)" r]
        by (simp add: dropWhile_eq_drop)
      then show ?thesis using Cons by simp
    next
      case False
      let ?o = "re_sub match_ws [32] r"
      have out: "re_sub match_ws [32] s = x # ?o"
        using False Cons by (simp add: ws_sub_Cons del: re_sub.simps(2))
      show ?thesis
      proof (cases "\<exists>k. match_tag (x # ?o) = Some k")
        case True
        then have x: "x = 60" and ne: "?o \<noteq> []" and hd: "hd ?o \<noteq> 62" and mem: "62 \<in> set ?o"
          unfolding match_tag_Cons by simp_all
        from ne have rne: "r \<noteq> []" by (simp add: ws_sub_Nil)
        from mem have rmem: "62 \<in> set r" using ws_sub_set [OF ns(2)] by simp
        have "hd r \<noteq> 62"
        proof
          assume "hd r = 62"
          then have "hd ?o = 62" using ws_sub_hd [OF rne] ns by simp
          with hd show False by simp
        qed
        with x rne rmem have "\<exists>k. match_tag (x # r) = Some k" unfolding match_tag_Cons by simp
        then show ?thesis using Cons by simp
      next
        case nomatch: False
        with 1(2) out have "has_tag ?o" by simp
        then have "has_tag r" using 1(1) Cons by simp
        then show ?thesis using Cons by simp
      qed
    qed
  qed
qed

lemma rev_dropWhile_split:
  "xs = rev (dropWhile P (rev xs)) @ rev (takeWhile P (rev xs))"
  by (metis rev_append rev_rev_ident takeWhile_dropWhile_id)

lemma strip_infix: "\<exists>a b. s = a @ strip s @ b"
proof -
  let ?d = "dropWhile is_space s"
  have 1: "s = takeWhile is_space s @ ?d" by simp
  have 2: "?d = strip s @ rev (takeWhile is_space (rev ?d))"
    unfolding strip_def by (rule rev_dropWhile_split)
  show ?thesis using 1 2 by metis
qed

lemma strip_ends:
  assumes "strip s \<noteq> []"
  shows "\<not> is_space (hd (strip s))" and "\<not> is_space (last (strip s))"
proof -
  let ?d = "dropWhile is_space s"
  let ?e = "dropWhile is_space (rev ?d)"
  from assms have e: "?e \<noteq> []" by (simp add: strip_def)
  then have "\<not> is_space (hd ?e)" by (rule hd_dropWhile)
  then show "\<not> is_space (last (strip s))" using e by (simp add: strip_def last_rev)
  have d: "?d \<noteq> []"
  proof
    assume "?d = []"
    then have "?e = dropWhile is_space (rev [])" by (simp only:)
    with e show False by simp
  qed
  then have nd: "\<not> is_space (hd ?d)" by (rule hd_dropWhile)
  have "?d = strip s @ rev (takeWhile is_space (rev ?d))"
    unfolding strip_def by (rule rev_dropWhile_split)
  with assms have "hd ?d = hd (strip s)" by (metis hd_append2)
  with nd show "\<not> is_space (hd (strip s))" by simp
qed

lemma has_tag_infix: "has_tag t \<Longrightarrow> has_tag (a @ t @ b)"
proof -
  assume "has_tag t"
  then obtain x y z where "t = x @ 60 # y @ 62 # z" "y \<noteq> []" "62 \<notin> set y"
    unfolding has_tag_iff by blast
  then have "a @ t @ b = (a @ x) @ 60 # y @ 62 # (z @ b) \<and> y \<noteq> [] \<and> 62 \<notin> set y" by simp
  then show ?thesis unfolding has_tag_iff by blast
qed

lemma spaced_nth: "spaced s \<Longrightarrow> Suc i < length s \<Longrightarrow> \<not> (is_space (s ! i) \<and> is_space (s ! Suc i))"
proof (induction s arbitrary: i rule: spaced.induct)
  case (1 a b r)
  then show ?case by (cases i) auto
qed simp_all

lemma strip_nth:
  assumes "\<And>i. Suc i < length s \<Longrightarrow> \<not> (is_space (s ! i) \<and> is_space (s ! Suc i))"
    and "Suc i < length (strip s)"
  shows "\<not> (is_space (strip s ! i) \<and> is_space (strip s ! Suc i))"
proof -
  obtain a b where s: "s = a @ strip s @ b" using strip_infix by blast
  have "Suc (length a + i) < length s" using assms(2) by (subst s) simp
  then have "\<not> (is_space (s ! (length a + i)) \<and> is_space (s ! Suc (length a + i)))"
    by (rule assms(1))
  moreover have "s ! (length a + i) = strip s ! i"
    using assms(2) by (subst s) (simp add: nth_append)
  moreover have "s ! Suc (length a + i) = strip s ! Suc i"
    using assms(2) by (subst s) (simp add: nth_append)
  ultimately show ?thesis by simp
qed

lemma strip_subset: "set (strip s) \<subseteq> set s"
proof -
  obtain a b where "s = a @ strip s @ b" using strip_infix by blast
  then have "set s = set a \<union> set (strip s) \<union> set b" by (metis set_append Un_assoc)
  then show ?thesis by blast
qed

lemma clean_field_value_no_tag: "\<not> has_tag (clean_field_value cr s)"
proof (cases "s = []")
  case True
  then show ?thesis by (simp add: clean_field_value_def)
next
  case False
  define t where "t = html_unescape cr (re_sub match_img [] (re_sub match_sound [] s))"
  let ?w = "re_sub match_ws [32] (re_sub match_tag [] t)"
  have out: "clean_field_value cr s = strip ?w"
    using False by (simp add: clean_field_value_def t_def)
  have "\<not> has_tag ?w" using ws_sub_has_tag tag_sub_no_tag by blast
  moreover obtain a b where "?w = a @ strip ?w @ b" using strip_infix by blast
  ultimately have "\<not> has_tag (strip ?w)" using has_tag_infix by metis
  with out show ?thesis by simp
qed

lemma clean_field_value_ws:
  "clean_field_value cr s = [] \<or> (\<exists>t. clean_field_value cr s = strip (re_sub match_ws [32] t))"
  by (auto simp: clean_field_value_def Let_def)

text \<open>
  C1, as stated, fails: a \<open><\<close> with no \<open>>\<close> after it is not a tag for the
  tag-stripping rule and stays in the cleaned text. The input holds no ampersand, so
  \<open>html.unescape\<close> returns it as it is whatever the substitution of character
  references does.
\<close>

theorem clean_field_value_keeps_lt: "clean_field_value (\<lambda>t. t) (ustr_of ''a < b'') = ustr_of ''a < b'' \<and> 60 \<in> set (ustr_of ''a < b'')"
  by (simp add: clean_field_value_def ustr_of_def match_sound_def match_img_def match_tag_def
      match_ws_def html_unescape_def strip_def until_close_def is_space_def ci_eq_def)

text \<open>
  Removing one audio reference can join the text around it into another: the rule for
  \<open>[sound:...]\<close> runs once, from the left, over the text as it was.
\<close>

lemma clean_field_value_joins_sound: "clean_field_value (\<lambda>t. t) (ustr_of ''[sou[sound:a]nd:b]'') = ustr_of ''[sound:b]''"
  by (simp add: clean_field_value_def ustr_of_def match_sound_def match_img_def match_tag_def
      match_ws_def html_unescape_def strip_def until_close_def is_space_def ci_eq_def)

text \<open>
  C1 (as amended): for every input text and every substitution of character references,
  the cleaned text holds no complete tag, that is no \<open><\<close> followed by one or more code
  points other than \<open>>\<close> and then a \<open>>\<close>; every whitespace code point left in it is an
  ASCII space, no two whitespace code points are adjacent, and the text neither starts
  nor ends with whitespace. A \<open><\<close> or \<open>>\<close> that is part of no complete tag may stay.
\<close>

theorem clean_field_value_sanitized:
  "(\<nexists>a b c. clean_field_value cr s = a @ 60 # b @ 62 # c \<and> b \<noteq> [] \<and> 62 \<notin> set b) \<and>
   (\<forall>c \<in> set (clean_field_value cr s). is_space c \<longrightarrow> c = 32) \<and>
   (\<forall>i. Suc i < length (clean_field_value cr s) \<longrightarrow>
        \<not> (is_space (clean_field_value cr s ! i) \<and> is_space (clean_field_value cr s ! Suc i))) \<and>
   (clean_field_value cr s \<noteq> [] \<longrightarrow>
        \<not> is_space (hd (clean_field_value cr s)) \<and> \<not> is_space (last (clean_field_value cr s)))"
proof -
  let ?out = "clean_field_value cr s"
  have tag: "\<nexists>a b c. ?out = a @ 60 # b @ 62 # c \<and> b \<noteq> [] \<and> 62 \<notin> set b"
    using clean_field_value_no_tag [of cr s] unfolding has_tag_iff .
  consider "?out = []" | t where "?out = strip (re_sub match_ws [32] t)"
    using clean_field_value_ws by blast
  then have rest: "(\<forall>c \<in> set ?out. is_space c \<longrightarrow> c = 32) \<and>
      (\<forall>i. Suc i < length ?out \<longrightarrow> \<not> (is_space (?out ! i) \<and> is_space (?out ! Suc i))) \<and>
      (?out \<noteq> [] \<longrightarrow> \<not> is_space (hd ?out) \<and> \<not> is_space (last ?out))"
  proof cases
    case 1
    then show ?thesis by simp
  next
    case 2
    let ?w = "re_sub match_ws [32] t"
    have a: "\<forall>c \<in> set (strip ?w). is_space c \<longrightarrow> c = 32"
      using strip_subset [of ?w] ws_sub_space [of _ t] by blast
    have b: "\<forall>i. Suc i < length (strip ?w) \<longrightarrow>
        \<not> (is_space (strip ?w ! i) \<and> is_space (strip ?w ! Suc i))"
      using strip_nth [of ?w] spaced_nth [OF ws_sub_spaced [of t]] by blast
    have c: "strip ?w \<noteq> [] \<longrightarrow> \<not> is_space (hd (strip ?w)) \<and> \<not> is_space (last (strip ?w))"
      using strip_ends [of ?w] by blast
    from a b c show ?thesis unfolding 2 by blast
  qed
  from tag rest show ?thesis by blast
qed

theorem clean_field_value_sanitized_witness:
  "clean_field_value (\<lambda>t. t) (ustr_of ''<b>Hi</b>  there<br/> < '') = ustr_of ''Hi there <'' \<and>
   (\<nexists>a b c. ustr_of ''Hi there <'' = a @ 60 # b @ 62 # c \<and> b \<noteq> [] \<and> 62 \<notin> set b) \<and>
   \<not> is_space (hd (ustr_of ''Hi there <'')) \<and> \<not> is_space (last (ustr_of ''Hi there <''))"
proof -
  have ev: "clean_field_value (\<lambda>t. t) (ustr_of ''<b>Hi</b>  there<br/> < '') = ustr_of ''Hi there <''"
    by (simp add: clean_field_value_def ustr_of_def match_sound_def match_img_def match_tag_def
      match_ws_def html_unescape_def strip_def until_close_def is_space_def ci_eq_def)
  have ne: "ustr_of ''Hi there <'' \<noteq> []" by (simp add: ustr_of_def)
  show ?thesis
    using clean_field_value_sanitized [of "\<lambda>t. t" "ustr_of ''<b>Hi</b>  there<br/> < ''"] ne
    unfolding ev by blast
qed

lemma py_get_in_range:
  "0 \<le> i \<Longrightarrow> i < int (length xs) \<Longrightarrow> py_get xs i = Inr (xs ! nat i)"
  by (simp add: py_get_def)

lemma select_loop_eq:
  "select_loop cr raw idxs selected =
     Inr (selected @ map (\<lambda>i. clean_field_value cr (raw ! nat i))
                        (filter (\<lambda>i. 0 \<le> i \<and> i < int (length raw)) idxs))"
  by (induction idxs arbitrary: selected) (simp_all add: py_get_in_range)


lemma select_fields_total: "\<exists>fv. select_fields cr idxs raw = Inr fv"
  by (cases idxs) (simp_all add: select_fields_def select_loop_eq)

lemma project_row_eq: "project_row rt opts dn rw = Inr (the_obj rt opts dn rw)"
  by (cases "field_indexes opts")
     (simp_all add: project_row_def the_obj_def the_fields_def select_fields_def select_loop_eq)

lemma export_loop_eq:
  "export_loop rt opts dn rows st =
     (None, \<lparr>l_count = l_count st + int (length rows),
             l_first = (if l_first st = None \<and> rows \<noteq> [] then Some (ts_ms (hd rows)) else l_first st),
             l_last = (if rows = [] then l_last st else Some (ts_ms (last rows))),
             l_written = l_written st @ concat (map (the_line rt opts dn) rows)\<rparr>)"
proof (induction rows arbitrary: st)
  case Nil
  then show ?case by simp
next
  case (Cons rw rows)
  show ?case
    by (simp add: Cons.IH project_row_eq the_line_def Let_def)
qed

lemma sorted_hd_Min_int: "sorted xs \<Longrightarrow> xs \<noteq> [] \<Longrightarrow> hd xs = Min (set (xs::int list))"
  by (cases xs) (auto intro!: Min_eqI [symmetric])

lemma sorted_last_Max_int: "sorted xs \<Longrightarrow> xs \<noteq> [] \<Longrightarrow> last xs = Max (set (xs::int list))"
proof (induction xs)
  case Nil
  then show ?case by simp
next
  case (Cons x xs)
  show ?case
  proof (cases "xs = []")
    case True
    then show ?thesis by simp
  next
    case False
    with Cons have "last xs = Max (set xs)" by simp
    moreover have "x \<le> Max (set xs)" using Cons.prems False
      by (metis List.finite_set Max_ge_iff last_in_set calculation empty_iff empty_set sorted_simps(2))
    ultimately show ?thesis using False by (simp add: max_def)
  qed
qed

lemma execute_query_sorted: "sorted (map ts_ms (execute_query d cls))"
  by (simp add: execute_query_def)

lemma export_llm_stats_eq:
  assumes "deck_and_child_ids (recursion_limit rt) col (deck_id opts) = Inr dids"
  shows "export_llm_stats rt col now_sec opts fs =
     (let rows = execute_query (db col) (where_clauses now_sec opts dids);
          dn = deck_names_of (all_names_and_ids col)
      in (Inr \<lparr>count = int (length rows),
               first_ts_ms = (if rows = [] then None else Some (ts_ms (hd rows))),
               last_ts_ms = (if rows = [] then None else Some (ts_ms (last rows))),
               deck_name = get_name dn (deck_id opts)\<rparr>,
          fs(out_path opts \<mapsto> concat (map (the_line rt opts dn) rows))))"
  by (simp add: export_llm_stats_def assms export_loop_eq loop_init_def Let_def)

lemma export_llm_stats_raises:
  assumes "deck_and_child_ids (recursion_limit rt) col (deck_id opts) = Inl e"
  shows "export_llm_stats rt col now_sec opts fs = (Inl e, fs)"
  by (simp add: export_llm_stats_def assms)

text \<open>
  C3: when the export returns a result, its count is the number of rows written, the
  rows of the query. With a positive count the first and last timestamps are present,
  they are the least and the greatest timestamp among the rows written, and the first is
  at most the last; with a count of zero both are absent.
\<close>

theorem export_result_timestamps:
  assumes "deck_and_child_ids (recursion_limit rt) col (deck_id opts) = Inr dids"
    and "fst (export_llm_stats rt col now_sec opts fs) = Inr res"
  shows "count res = int (length (execute_query (db col) (where_clauses now_sec opts dids))) \<and>
    (0 < count res \<longrightarrow>
       first_ts_ms res = Some (Min (ts_ms ` set (execute_query (db col) (where_clauses now_sec opts dids)))) \<and>
       last_ts_ms res = Some (Max (ts_ms ` set (execute_query (db col) (where_clauses now_sec opts dids)))) \<and>
       the (first_ts_ms res) \<le> the (last_ts_ms res)) \<and>
    (count res = 0 \<longrightarrow> first_ts_ms res = None \<and> last_ts_ms res = None)"
proof -
  let ?rows = "execute_query (db col) (where_clauses now_sec opts dids)"
  let ?ts = "map ts_ms ?rows"
  have res: "res = \<lparr>count = int (length ?rows),
               first_ts_ms = (if ?rows = [] then None else Some (ts_ms (hd ?rows))),
               last_ts_ms = (if ?rows = [] then None else Some (ts_ms (last ?rows))),
               deck_name = get_name (deck_names_of (all_names_and_ids col)) (deck_id opts)\<rparr>"
    using assms(2) unfolding export_llm_stats_eq [OF assms(1)] by (simp add: Let_def)
  have sorted: "sorted ?ts" by (rule execute_query_sorted)
  show ?thesis
  proof (cases "?rows = []")
    case True
    then show ?thesis by (simp add: res)
  next
    case False
    then have ne: "?ts \<noteq> []" by simp
    have h: "ts_ms (hd ?rows) = Min (ts_ms ` set ?rows)"
      using sorted_hd_Min_int [OF sorted ne] False by (simp add: hd_map)
    have l: "ts_ms (last ?rows) = Max (ts_ms ` set ?rows)"
      using sorted_last_Max_int [OF sorted ne] False by (simp add: last_map)
    have "Min (ts_ms ` set ?rows) \<le> Max (ts_ms ` set ?rows)"
      using False by (simp add: Min_le_iff) 
    with h l False show ?thesis by (simp add: res)
  qed
qed

lemma sample_resolved:
  "deck_and_child_ids (recursion_limit sample_rt) sample_col (deck_id sample_opts) = Inr [1, 2]"
  by (simp add: deck_and_child_ids_def sample_col_def sample_opts_def)

lemma sample_rows:
  "map ts_ms (execute_query (db sample_col) (where_clauses now sample_opts [1, 2])) = [1000, 2000, 3000]"
  by (simp add: execute_query_def where_clauses_def sample_opts_def sample_db_def joined_def sample_col_def)

lemma sample_result:
  "fst (export_llm_stats sample_rt sample_col now sample_opts fs) =
     Inr \<lparr>count = 3, first_ts_ms = Some 1000, last_ts_ms = Some 3000, deck_name = ustr_of ''Default''\<rparr>"
proof -
  let ?rows = "execute_query (db sample_col) (where_clauses now sample_opts [1, 2])"
  have "length (map ts_ms ?rows) = 3" "hd (map ts_ms ?rows) = 1000" "last (map ts_ms ?rows) = 3000"
    unfolding sample_rows by simp_all
  moreover then have "?rows \<noteq> []" by auto
  ultimately have "length ?rows = 3" "ts_ms (hd ?rows) = 1000" "ts_ms (last ?rows) = 3000" "?rows \<noteq> []"
    by (simp_all add: hd_map last_map)
  moreover have "get_name (deck_names_of (all_names_and_ids sample_col)) (deck_id sample_opts) = ustr_of ''Default''"
    by (simp add: get_name_def deck_names_of_def sample_col_def sample_opts_def)
  ultimately show ?thesis
    unfolding export_llm_stats_eq [OF sample_resolved] by (simp add: Let_def)
qed

theorem export_result_timestamps_witness:
  "count \<lparr>count = 3, first_ts_ms = Some 1000, last_ts_ms = Some 3000, deck_name = ustr_of ''Default''\<rparr> =
     int (length (execute_query (db sample_col) (where_clauses 0 sample_opts [1, 2]))) \<and>
   Min (ts_ms ` set (execute_query (db sample_col) (where_clauses 0 sample_opts [1, 2]))) = 1000 \<and>
   Max (ts_ms ` set (execute_query (db sample_col) (where_clauses 0 sample_opts [1, 2]))) = 3000"
  using export_result_timestamps [OF sample_resolved sample_result [of 0 Map.empty]]
  by simp

lemma build_obj_compact_keys:
  "compact_schema opts \<Longrightarrow>
     map fst (build_obj opts dn tiso rw fv) =
       [''t'', ''rt'', ''e'', ''i'', ''li'', ''f'', ''ms'', ''flds'']"
  by (simp add: build_obj_def)

text \<open>
  C4: in compact mode the object of a row has exactly the keys \<open>t\<close>, \<open>rt\<close>, \<open>e\<close>, \<open>i\<close>,
  \<open>li\<close>, \<open>f\<close>, \<open>ms\<close> and \<open>flds\<close>, so none of \<open>ts_ms\<close>, \<open>card_id\<close>, \<open>note_id\<close>,
  \<open>deck_id\<close> and \<open>deck_name\<close>, and it is the same object whatever the flags
  \<open>include_ids\<close>, \<open>include_deck_name\<close> and \<open>include_ts_ms\<close> are set to.
\<close>

theorem compact_ignores_flags:
  assumes "compact_schema opts"
  shows "\<exists>obj. project_row rt opts dn rw = Inr obj \<and>
      map fst obj = [''t'', ''rt'', ''e'', ''i'', ''li'', ''f'', ''ms'', ''flds''] \<and>
      ''ts_ms'' \<notin> fst ` set obj \<and> ''card_id'' \<notin> fst ` set obj \<and> ''note_id'' \<notin> fst ` set obj \<and>
      ''deck_id'' \<notin> fst ` set obj \<and> ''deck_name'' \<notin> fst ` set obj \<and>
      project_row rt (opts\<lparr>include_ids := a, include_deck_name := b, include_ts_ms := c\<rparr>) dn rw = Inr obj"
proof -
  let ?obj = "the_obj rt opts dn rw"
  have keys: "map fst ?obj = [''t'', ''rt'', ''e'', ''i'', ''li'', ''f'', ''ms'', ''flds'']"
    using assms by (simp add: the_obj_def build_obj_compact_keys)
  have "fst ` set ?obj = set (map fst ?obj)" by simp
  then have set: "fst ` set ?obj = set [''t'', ''rt'', ''e'', ''i'', ''li'', ''f'', ''ms'', ''flds'']"
    unfolding keys .
  have same: "the_obj rt (opts\<lparr>include_ids := a, include_deck_name := b, include_ts_ms := c\<rparr>) dn rw = ?obj"
    using assms by (simp add: the_obj_def the_fields_def build_obj_def)
  have absent: "''ts_ms'' \<notin> fst ` set ?obj \<and> ''card_id'' \<notin> fst ` set ?obj \<and>
      ''note_id'' \<notin> fst ` set ?obj \<and> ''deck_id'' \<notin> fst ` set ?obj \<and> ''deck_name'' \<notin> fst ` set ?obj"
    unfolding set by simp
  show ?thesis
    unfolding project_row_eq same using keys absent by simp
qed

theorem compact_ignores_flags_witness:
  "compact_schema (sample_opts\<lparr>compact_schema := True\<rparr>) \<and>
   (\<exists>obj. project_row sample_rt (sample_opts\<lparr>compact_schema := True\<rparr>) Map.empty
             (hd (execute_query sample_db [])) = Inr obj \<and>
          ''deck_name'' \<notin> fst ` set obj \<and>
          project_row sample_rt
             (sample_opts\<lparr>compact_schema := True, include_ids := True, include_deck_name := True,
                include_ts_ms := True\<rparr>) Map.empty
             (hd (execute_query sample_db [])) = Inr obj)"
proof -
  have c: "compact_schema (sample_opts\<lparr>compact_schema := True\<rparr>)" by simp
  show ?thesis
    using c compact_ignores_flags [OF c, of sample_rt Map.empty "hd (execute_query sample_db [])" True True True]
    by auto
qed

lemma set_execute_query:
  "set (execute_query d cls) = {rw \<in> set (joined d). \<forall>cl \<in> set cls. eval_clause cl rw}"
  by (auto simp: execute_query_def list_all_iff)










lemma where_clauses_same_cutoff:
  assumes "days opts = None \<or> (\<exists>n. days opts = Some n \<and> cutoff_ms now1 n = cutoff_ms now2 n)"
  shows "where_clauses now1 opts dids = where_clauses now2 opts dids"
  using assms by (auto simp: where_clauses_def)

text \<open>
  C8 (as amended): when no window of days is set, or both runs compute the same cutoff,
  a second run with the same options on the same collection, started on the files the
  first run left, returns what the first returned and leaves the files as they were: the
  same output file. The file is exactly the lines of the rows of the run, whatever the
  path held before: it is emptied, not appended to.
\<close>

theorem export_twice_same_cutoff:
  assumes "days opts = None \<or> (\<exists>n. days opts = Some n \<and> cutoff_ms now1 n = cutoff_ms now2 n)"
  shows "export_llm_stats rt col now2 opts (snd (export_llm_stats rt col now1 opts fs)) =
           export_llm_stats rt col now1 opts fs \<and>
         (\<forall>dids. deck_and_child_ids (recursion_limit rt) col (deck_id opts) = Inr dids \<longrightarrow>
            snd (export_llm_stats rt col now1 opts fs) (out_path opts) =
              Some (concat (map (the_line rt opts (deck_names_of (all_names_and_ids col)))
                      (execute_query (db col) (where_clauses now1 opts dids)))))"
proof (cases "deck_and_child_ids (recursion_limit rt) col (deck_id opts)")
  case (Inl e)
  then show ?thesis by (simp add: export_llm_stats_raises)
next
  case (Inr dids)
  have w: "where_clauses now2 opts dids = where_clauses now1 opts dids"
    using where_clauses_same_cutoff [OF assms] by simp
  show ?thesis
    unfolding export_llm_stats_eq [OF Inr] w using Inr by (simp add: Let_def)
qed

lemma sample_window_resolved:
  "deck_and_child_ids n sample_col (deck_id (sample_opts\<lparr>days := Some 1\<rparr>)) = Inr [1, 2]"
  by (simp add: deck_and_child_ids_def sample_col_def sample_opts_def)

lemma sample_window_rows:
  "\<exists>a b. execute_query (db sample_col) (where_clauses 86401 (sample_opts\<lparr>days := Some 1\<rparr>) [1, 2]) =
     a # b # execute_query (db sample_col) (where_clauses 86403 (sample_opts\<lparr>days := Some 1\<rparr>) [1, 2])"
  by (simp add: execute_query_def where_clauses_def sample_opts_def sample_db_def joined_def
      sample_col_def cutoff_ms_def py_int_of_def)

lemma the_line_length: "0 < length (the_line rt opts dn rw)"
  by (simp add: the_line_def)

lemma window_moves:
  "snd (export_llm_stats rt sample_col 86403 (sample_opts\<lparr>days := Some 1\<rparr>)
         (snd (export_llm_stats rt sample_col 86401 (sample_opts\<lparr>days := Some 1\<rparr>) fs)))
       (out_path (sample_opts\<lparr>days := Some 1\<rparr>))
   \<noteq> snd (export_llm_stats rt sample_col 86401 (sample_opts\<lparr>days := Some 1\<rparr>) fs)
       (out_path (sample_opts\<lparr>days := Some 1\<rparr>))"
proof -
  let ?o = "sample_opts\<lparr>days := Some 1\<rparr>"
  let ?L = "the_line rt ?o (deck_names_of (all_names_and_ids sample_col))"
  let ?r1 = "execute_query (db sample_col) (where_clauses 86401 ?o [1, 2])"
  let ?r2 = "execute_query (db sample_col) (where_clauses 86403 ?o [1, 2])"
  obtain a b where r1: "?r1 = a # b # ?r2" using sample_window_rows by blast
  have "length (concat (map ?L ?r1)) = length (?L a) + length (?L b) + length (concat (map ?L ?r2))"
    unfolding r1 by simp
  then have "length (concat (map ?L ?r2)) < length (concat (map ?L ?r1))"
    using the_line_length [of rt ?o _ a] by simp
  then have "concat (map ?L ?r2) \<noteq> concat (map ?L ?r1)" by auto
  then show ?thesis
    unfolding export_llm_stats_eq [OF sample_window_resolved] by (simp add: Let_def)
qed

text \<open>
  C8, as stated, fails: with a window of one day, the same options and the same
  collection, a run at 86401 s writes the three reviews and a second run two seconds
  later writes only the last one, the cutoff having moved past the other two. The two
  files differ (as they do under every runtime), and so do the counts.
\<close>

theorem export_twice_window_moves:
  "snd (export_llm_stats sample_rt sample_col 86403 (sample_opts\<lparr>days := Some 1\<rparr>)
         (snd (export_llm_stats sample_rt sample_col 86401 (sample_opts\<lparr>days := Some 1\<rparr>) Map.empty)))
       (out_path (sample_opts\<lparr>days := Some 1\<rparr>))
   \<noteq> snd (export_llm_stats sample_rt sample_col 86401 (sample_opts\<lparr>days := Some 1\<rparr>) Map.empty)
       (out_path (sample_opts\<lparr>days := Some 1\<rparr>))"
  by (rule window_moves)

theorem export_twice_same_cutoff_witness:
  "days sample_opts = None \<and>
   export_llm_stats sample_rt sample_col 86403 sample_opts
       (snd (export_llm_stats sample_rt sample_col 86401 sample_opts Map.empty)) =
     export_llm_stats sample_rt sample_col 86401 sample_opts Map.empty"
proof -
  have d: "days sample_opts = None" by (simp add: sample_opts_def)
  then have "days sample_opts = None \<or>
      (\<exists>n. days sample_opts = Some n \<and> cutoff_ms 86401 n = cutoff_ms 86403 n)" by simp
  from export_twice_same_cutoff [OF this, of sample_rt sample_col Map.empty] d
  show ?thesis by simp
qed

lemma field_index_loop_eq:
  "field_index_loop py_int parts idxs =
     idxs @ filter (\<lambda>i. 0 \<le> i) (List.map_filter py_int (filter (\<lambda>p. p \<noteq> []) (map strip parts)))"
  by (induction parts arbitrary: idxs) (auto simp: Let_def List.map_filter_simps split: option.splits)

lemma tag_loop_eq:
  "tag_loop lower parts tags =
     tags @ filter (\<lambda>t. t \<noteq> []) (map (\<lambda>p. lower (strip p)) parts)"
  by (induction parts arbitrary: tags) (auto simp: Let_def)

lemma strip_Nil: "strip [] = []"
  by (simp add: strip_def)

text \<open>
  C9: neither parser has an error to return. The field indices are the values of the
  comma-separated tokens, stripped, that are not empty, that \<open>int\<close> accepts and that are
  not negative, in their order; every other token is left out. The tags are the
  lower-cased tokens between commas and whitespace that are not empty. With nothing
  left the result is \<open>None\<close>, no filter; otherwise it is a list that is not empty, of
  indices that are not negative or of tags that are not empty.
\<close>

theorem parsers_drop_invalid:
  "selected_field_indexes py_int field_text =
     (let valid = filter (\<lambda>i. 0 \<le> i)
            (List.map_filter py_int
               (filter (\<lambda>p. p \<noteq> []) (map strip (split_on 44 (strip field_text)))))
      in if valid = [] then None else Some valid) \<and>
   selected_tags lower tags_text =
     (let valid = filter (\<lambda>t. t \<noteq> [])
            (map (\<lambda>p. lower (strip p)) (split_ws (replace_comma (strip tags_text))))
      in if valid = [] then None else Some valid) \<and>
   (\<forall>idxs. selected_field_indexes py_int field_text = Some idxs \<longrightarrow>
      idxs \<noteq> [] \<and> (\<forall>i \<in> set idxs. 0 \<le> i)) \<and>
   (\<forall>tags. selected_tags lower tags_text = Some tags \<longrightarrow>
      tags \<noteq> [] \<and> (\<forall>t \<in> set tags. t \<noteq> []))"
proof -
  have a: "selected_field_indexes py_int field_text =
     (let valid = filter (\<lambda>i. 0 \<le> i)
            (List.map_filter py_int
               (filter (\<lambda>p. p \<noteq> []) (map strip (split_on 44 (strip field_text)))))
      in if valid = [] then None else Some valid)"
    by (cases "strip field_text = []")
       (simp_all add: selected_field_indexes_def field_index_loop_eq Let_def split_on_def
          strip_Nil List.map_filter_simps)
  have b: "selected_tags lower tags_text =
     (let valid = filter (\<lambda>t. t \<noteq> [])
            (map (\<lambda>p. lower (strip p)) (split_ws (replace_comma (strip tags_text))))
      in if valid = [] then None else Some valid)"
    by (cases "strip tags_text = []")
       (simp_all add: selected_tags_def tag_loop_eq Let_def split_ws_def replace_comma_def)
  have c: "\<forall>idxs. selected_field_indexes py_int field_text = Some idxs \<longrightarrow>
      idxs \<noteq> [] \<and> (\<forall>i \<in> set idxs. 0 \<le> i)"
    unfolding a by (auto simp: Let_def split: if_splits)
  have d: "\<forall>tags. selected_tags lower tags_text = Some tags \<longrightarrow>
      tags \<noteq> [] \<and> (\<forall>t \<in> set tags. t \<noteq> [])"
    unfolding b by (auto simp: Let_def split: if_splits)
  from a b c d show ?thesis by blast
qed

lemma sample_indexes:
  "selected_field_indexes sample_int (ustr_of ''0, x,, -1 ,2'') = Some [0, 2]"
  by (simp add: selected_field_indexes_def ustr_of_def strip_def is_space_def split_on_def
      sample_int_def Let_def)

lemma sample_tags:
  "selected_tags (\<lambda>s. s) (ustr_of ''a_b,, verb '') = Some [ustr_of ''a_b'', ustr_of ''verb'']"
  by (simp add: selected_tags_def ustr_of_def strip_def is_space_def split_ws_def
      replace_comma_def Let_def)

theorem parsers_drop_invalid_witness:
  "selected_field_indexes sample_int (ustr_of ''0, x,, -1 ,2'') = Some [0, 2] \<and>
   selected_tags (\<lambda>s. s) (ustr_of ''a_b,, verb '') = Some [ustr_of ''a_b'', ustr_of ''verb''] \<and>
   [0, 2] \<noteq> ([] :: int list) \<and> [ustr_of ''a_b'', ustr_of ''verb''] \<noteq> []"
  using parsers_drop_invalid [of sample_int "ustr_of ''0, x,, -1 ,2''" "\<lambda>s. s" "ustr_of ''a_b,, verb ''"]
    sample_indexes sample_tags
  by simp












lemma tag_filter_wildcard_m:
  "sample_row \<in> set (execute_query sample_db
      (where_clauses now_sec (sample_opts\<lparr>tags_filter := Some [ustr_of ''a_b'']\<rparr>) [1, 2])) "
  unfolding set_execute_query
  by (simp add: where_clauses_def sample_opts_def sample_db_def joined_def sample_row_def
      tag_pattern_def ustr_of_def sqlite_lower_def)

text \<open>
  C5 at the failing input: the dialog hands the tag \<open>a_b\<close> on as it is; the note of the
  review at 1000 ms has the single tag \<open>axb\<close>; the query with that tag filter returns the
  review, though no requested tag is a tag of the note. \<open>LIKE\<close> reads the underscore of
  the tag as a wildcard for any one character.
\<close>

theorem tag_filter_wildcard:
  "selected_tags (\<lambda>s. s) (ustr_of ''a_b'') = Some [ustr_of ''a_b''] \<and>
   note_tags sample_row = ustr_of '' axb '' \<and>
   sample_row \<in> set (execute_query sample_db
      (where_clauses 0 (sample_opts\<lparr>tags_filter := Some [ustr_of ''a_b'']\<rparr>) [1, 2])) \<and>
   \<not> tag_filter_spec [ustr_of ''a_b''] (note_tags sample_row)"
proof -
  have a: "selected_tags (\<lambda>s. s) (ustr_of ''a_b'') = Some [ustr_of ''a_b'']"
    by (simp add: selected_tags_def ustr_of_def strip_def is_space_def split_ws_def
      replace_comma_def Let_def)
  have b: "note_tags sample_row = ustr_of '' axb ''" by (simp add: sample_row_def)
  have c: "\<not> tag_filter_spec [ustr_of ''a_b''] (note_tags sample_row)"
    by (simp add: tag_filter_spec_def sample_row_def ustr_of_def split_on_def sqlite_lower_def)
  from a b c tag_filter_wildcard_m [of 0] show ?thesis by simp
qed

lemma sql_like_percent:
  "sql_like (37 # ps) s \<longleftrightarrow> (\<exists>a b. s = a @ b \<and> sql_like ps b)"
proof (induction s)
  case Nil
  then show ?case by simp
next
  case (Cons c cs)
  have "(\<exists>a b. c # cs = a @ b \<and> sql_like ps b) \<longleftrightarrow>
        sql_like ps (c # cs) \<or> (\<exists>a b. cs = a @ b \<and> sql_like ps b)"
    by (auto simp: Cons_eq_append_conv)
  with Cons show ?case by simp
qed

lemma sql_like_literal:
  "37 \<notin> set lit \<Longrightarrow> 95 \<notin> set lit \<Longrightarrow>
     sql_like (lit @ ps) s \<longleftrightarrow>
       (\<exists>t r. s = t @ r \<and> map sqlite_lower t = map sqlite_lower lit \<and> sql_like ps r)"
proof (induction lit arbitrary: s)
  case Nil
  then show ?case by simp
next
  case (Cons p l)
  then have p: "p \<noteq> 37" "p \<noteq> 95" and l: "37 \<notin> set l" "95 \<notin> set l" by auto
  show ?case
  proof (cases s)
    case Nil
    then show ?thesis using p by auto
  next
    case s: (Cons c cs)
    have step: "sql_like ((p # l) @ ps) (c # cs) \<longleftrightarrow>
        sqlite_lower p = sqlite_lower c \<and> sql_like (l @ ps) cs"
      using p by simp
    show ?thesis
    proof
      assume "sql_like ((p # l) @ ps) s"
      then have pc: "sqlite_lower p = sqlite_lower c" and "sql_like (l @ ps) cs"
        using step s by simp_all
      then obtain t r where "cs = t @ r" "map sqlite_lower t = map sqlite_lower l" "sql_like ps r"
        using Cons.IH [OF l, of cs] by blast
      then have "s = (c # t) @ r \<and> map sqlite_lower (c # t) = map sqlite_lower (p # l) \<and> sql_like ps r"
        using pc s by simp
      then show "\<exists>t r. s = t @ r \<and> map sqlite_lower t = map sqlite_lower (p # l) \<and> sql_like ps r"
        by blast
    next
      assume "\<exists>t r. s = t @ r \<and> map sqlite_lower t = map sqlite_lower (p # l) \<and> sql_like ps r"
      then obtain t r where tr: "s = t @ r" "map sqlite_lower t = map sqlite_lower (p # l)" "sql_like ps r"
        by blast
      from tr(2) obtain z zs where t: "t = z # zs" "sqlite_lower z = sqlite_lower p"
          "map sqlite_lower zs = map sqlite_lower l"
        by (cases t) auto
      from tr(1) t(1) s have "z = c" "cs = zs @ r" by simp_all
      with t tr(3) have "sqlite_lower p = sqlite_lower c" "sql_like (l @ ps) cs"
        using Cons.IH [OF l, of cs] by auto
      then show "sql_like ((p # l) @ ps) s" using step s by simp
    qed
  qed
qed

lemma sql_like_any: "sql_like [37] s"
  by (induction s) simp_all

lemma sqlite_lower_space: "sqlite_lower c = 32 \<longleftrightarrow> c = 32"
  by (auto simp: sqlite_lower_def)

lemma bounded_literal:
  "map sqlite_lower t = map sqlite_lower (32 # tag @ [32]) \<longleftrightarrow>
     (\<exists>u. t = 32 # u @ [32] \<and> map sqlite_lower u = map sqlite_lower tag)"
proof
  assume eq: "map sqlite_lower t = map sqlite_lower (32 # tag @ [32])"
  then have len: "length t = Suc (Suc (length tag))" by (metis length_map length_Cons length_append_singleton)
  then obtain c t' where t: "t = c # t'" by (cases t) auto
  with len have "t' \<noteq> []" by auto
  then obtain u e where t': "t' = u @ [e]" by (metis rev_exhaust)
  from eq t t' have "sqlite_lower c = 32" "map sqlite_lower u = map sqlite_lower tag" "sqlite_lower e = 32"
    by (simp_all add: sqlite_lower_def)
  then show "\<exists>u. t = 32 # u @ [32] \<and> map sqlite_lower u = map sqlite_lower tag"
    using t t' by (simp add: sqlite_lower_space)
next
  assume "\<exists>u. t = 32 # u @ [32] \<and> map sqlite_lower u = map sqlite_lower tag"
  then show "map sqlite_lower t = map sqlite_lower (32 # tag @ [32])" by auto
qed

text \<open>
  A requested tag with no \<open>%\<close> and no \<open>_\<close> in it is matched as the claim says: the tag
  text of the note holds the tag, letter case of ASCII letters aside, with a space on
  both sides.
\<close>

lemma tag_filter_bounded:
  assumes "37 \<notin> set tag" and "95 \<notin> set tag"
  shows "sql_like (tag_pattern tag) s \<longleftrightarrow>
     (\<exists>a u b. s = a @ 32 # u @ 32 # b \<and> map sqlite_lower u = map sqlite_lower tag)"
proof -
  have lit: "37 \<notin> set (32 # tag @ [32])" "95 \<notin> set (32 # tag @ [32])" using assms by auto
  have "sql_like (tag_pattern tag) s \<longleftrightarrow> sql_like (37 # (32 # tag @ [32]) @ [37]) s"
    by (simp add: tag_pattern_def)
  also have "\<dots> \<longleftrightarrow> (\<exists>a b. s = a @ b \<and> sql_like ((32 # tag @ [32]) @ [37]) b)"
    by (rule sql_like_percent)
  also have "\<dots> \<longleftrightarrow> (\<exists>a t r. s = a @ t @ r \<and> map sqlite_lower t = map sqlite_lower (32 # tag @ [32]))"
    unfolding sql_like_literal [OF lit] by (simp only: sql_like_any) blast
  also have "\<dots> \<longleftrightarrow> (\<exists>a u b. s = a @ (32 # u @ [32]) @ b \<and> map sqlite_lower u = map sqlite_lower tag)"
    unfolding bounded_literal by blast
  also have "\<dots> \<longleftrightarrow> (\<exists>a u b. s = a @ 32 # u @ 32 # b \<and> map sqlite_lower u = map sqlite_lower tag)"
    by simp
  finally show ?thesis .
qed



end
